theory Spec2Isabelle
  imports Main "HOL-Library.Word" "HOL-Library.AList" "HOL-Library.Sublist"
begin

section \<open>Data model of main.go\<close>

text \<open>
  Go's \<open>int\<close> is a 64-bit two's complement integer on the platforms the Dockerfile builds
  for; \<open>+=\<close> wraps around silently. Comparisons such as \<open>strength > 0\<close> are signed, so they
  are written with \<open>sint\<close>.
\<close>

type_synonym go_int = "64 word"

text \<open>\<open>type CellList []string\<close>: the order matches the connectivity matrix.\<close>

type_synonym CellList = "string list"

text \<open>\<open>type Connection struct { pre, post string; strength int }\<close>\<close>

record Connection =
  pre :: string
  post :: string
  strength :: go_int

type_synonym ConnectionList = "Connection list"

text \<open>
  \<open>type NamedConnectome map[string](map[string]int)\<close>. A Go map is modelled as an
  association list: \<open>map_of\<close> is the lookup \<open>m[k]\<close> with its presence flag,
  \<open>AList.update\<close> is the assignment \<open>m[k] = v\<close>, and the order of the keys in the list
  is the order in which one \<open>range\<close> loop visits them (Go leaves that order unspecified,
  so every statement below is made for an arbitrary list).
\<close>

type_synonym NamedConnectome = "(string \<times> (string \<times> go_int) list) list"

text \<open>The ways in which the program stops without returning.\<close>

datatype failure =
    PanicSliceBounds   \<comment> \<open>runtime panic: slice bounds out of range\<close>
  | PanicIndex         \<comment> \<open>runtime panic: index out of range\<close>
  | FatalColumns       \<comment> \<open>\<open>log.Fatalf\<close>: inconsistent number of columns\<close>
  | FatalParse         \<comment> \<open>\<open>log.Fatalln\<close>: could not parse CSV line\<close>

text \<open>The entry stored for a pair, \<open>nc[pre][post]\<close>, with its presence.\<close>

definition entry :: "NamedConnectome \<Rightarrow> string \<Rightarrow> string \<Rightarrow> go_int option" where
  "entry nc p q = (case map_of nc p of None \<Rightarrow> None | Some connections \<Rightarrow> map_of connections q)"

text \<open>
  A Go map holds each key once. The lists that stand for maps here are built by
  \<open>AddConnection\<close> only, which keeps that property (shown below).
\<close>

definition unique_keys :: "NamedConnectome \<Rightarrow> bool" where
  "unique_keys nc =
     (distinct (map fst nc) \<and> (\<forall>connections \<in> snd ` set nc. distinct (map fst connections)))"

section \<open>ConnectionStrength and AddConnection\<close>

text \<open>
  \<open>func (nc NamedConnectome) ConnectionStrength(pre, post string) (strength int, found bool)\<close>.
  The named results start at their zero values \<open>(0, false)\<close>.
\<close>

definition ConnectionStrength :: "NamedConnectome \<Rightarrow> string \<Rightarrow> string \<Rightarrow> go_int \<times> bool" where
  "ConnectionStrength nc pre' post' =
     (case map_of nc pre' of
        None \<Rightarrow> (0, False)
      | Some connections \<Rightarrow>
          (case map_of connections post' of
             None \<Rightarrow> (0, False)
           | Some s \<Rightarrow> if s = 0 then (s, False) else (s, True)))"

text \<open>
  \<open>func (nc *NamedConnectome) AddConnection(pre, post string, strength int)\<close>: the updated
  connectome is returned. Replacing an empty map by a fresh empty map (the first two lines
  of the body) changes nothing in this model.
\<close>

definition AddConnection :: "NamedConnectome \<Rightarrow> string \<Rightarrow> string \<Rightarrow> go_int \<Rightarrow> NamedConnectome" where
  "AddConnection nc pre' post' s =
     (case map_of nc pre' of
        Some connections \<Rightarrow>
          (case map_of connections post' of
             Some old \<Rightarrow> AList.update pre' (AList.update post' (old + s) connections) nc
           | None \<Rightarrow> AList.update pre' (AList.update post' s connections) nc)
      | None \<Rightarrow> AList.update pre' (AList.update post' s []) nc)"

section \<open>MatchingNames\<close>

text \<open>
  \<open>strings.HasPrefix(s, prefix)\<close> of Go's standard library:
  \<open>len(s) >= len(prefix) && s[:len(prefix)] == prefix\<close>.
\<close>

definition HasPrefix :: "string \<Rightarrow> string \<Rightarrow> bool" where
  "HasPrefix s p = (length p \<le> length s \<and> take (length p) s = p)"

text \<open>
  The inner loop of \<open>MatchingNames\<close>, over the keys of the connectome in the order the
  \<open>range\<close> visits them: \<open>if strings.HasPrefix(name, pattern) { matches = append(matches, name) }\<close>.
\<close>

fun prefix_loop :: "string \<Rightarrow> string list \<Rightarrow> string list \<Rightarrow> string list" where
  "prefix_loop pattern [] matches = matches"
| "prefix_loop pattern (name # names) matches =
     prefix_loop pattern names (if HasPrefix name pattern then matches @ [name] else matches)"

text \<open>
  The outer loop of \<open>MatchingNames\<close>. The slice expression \<open>pattern[len(pattern)-1:]\<close> has
  the lower bound \<open>-1\<close> when the pattern is empty, which is a runtime panic in Go; the
  natural-number subtraction of HOL would hide it, so the case is written out first.
\<close>

fun MatchingNames_loop ::
  "NamedConnectome \<Rightarrow> string list \<Rightarrow> string list \<Rightarrow> failure + string list" where
  "MatchingNames_loop nc [] matches = Inr matches"
| "MatchingNames_loop nc (pattern # patterns) matches =
     (if length pattern = 0 then Inl PanicSliceBounds
      else if drop (length pattern - 1) pattern = ''*'' then
        MatchingNames_loop nc patterns
          (prefix_loop (take (length pattern - 1) pattern) (map fst nc) matches)
      else
        (case map_of nc pattern of
           Some _ \<Rightarrow> MatchingNames_loop nc patterns (matches @ [pattern])
         | None \<Rightarrow> MatchingNames_loop nc patterns matches))"

text \<open>\<open>func (nc NamedConnectome) MatchingNames(patterns []string) (matches []string)\<close>\<close>

definition MatchingNames :: "NamedConnectome \<Rightarrow> string list \<Rightarrow> failure + string list" where
  "MatchingNames nc patterns = MatchingNames_loop nc patterns []"

section \<open>The query of getSearchHTML\<close>

text \<open>
  \<open>strings.Split(s, ",")\<close> of Go's standard library: the substrings between the commas;
  the empty string gives one empty substring.
\<close>

fun Split :: "string \<Rightarrow> char \<Rightarrow> string list" where
  "Split [] sep = [[]]"
| "Split (c # s) sep =
     (if c = sep then [] # Split s sep
      else (case Split s sep of [] \<Rightarrow> [[c]] | x # xs \<Rightarrow> (c # x) # xs))"

text \<open>
  \<open>strings.TrimSpace\<close> of Go's standard library removes the leading and the trailing
  white space as Unicode defines it. A Go string is a sequence of bytes holding UTF-8:
  the white space characters are the six ASCII ones, U+0085 and U+00A0 (two bytes each)
  and U+1680, U+2000 to U+200A, U+2028, U+2029, U+202F, U+205F and U+3000 (three bytes
  each). Bytes that do not form such a character stop the trimming.
\<close>

definition asciiSpace :: "char \<Rightarrow> bool" where
  "asciiSpace c = (c \<in> set [CHR 0x09, CHR 0x0A, CHR 0x0B, CHR 0x0C, CHR 0x0D, CHR 0x20])"

definition space2 :: "char \<Rightarrow> char \<Rightarrow> bool" where
  "space2 a b = (a = CHR 0xC2 \<and> (b = CHR 0x85 \<or> b = CHR 0xA0))"

definition space3 :: "char \<Rightarrow> char \<Rightarrow> char \<Rightarrow> bool" where
  "space3 a b c =
     ((a = CHR 0xE1 \<and> b = CHR 0x9A \<and> c = CHR 0x80) \<or>
      (a = CHR 0xE2 \<and> b = CHR 0x80 \<and>
         c \<in> set [CHR 0x80, CHR 0x81, CHR 0x82, CHR 0x83, CHR 0x84, CHR 0x85, CHR 0x86,
                   CHR 0x87, CHR 0x88, CHR 0x89, CHR 0x8A, CHR 0xA8, CHR 0xA9, CHR 0xAF]) \<or>
      (a = CHR 0xE2 \<and> b = CHR 0x81 \<and> c = CHR 0x9F) \<or>
      (a = CHR 0xE3 \<and> b = CHR 0x80 \<and> c = CHR 0x80))"

fun TrimLeft :: "string \<Rightarrow> string" where
  "TrimLeft (a # b # c # s) =
     (if asciiSpace a then TrimLeft (b # c # s)
      else if space2 a b then TrimLeft (c # s)
      else if space3 a b c then TrimLeft s
      else a # b # c # s)"
| "TrimLeft [a, b] =
     (if asciiSpace a then TrimLeft [b] else if space2 a b then [] else [a, b])"
| "TrimLeft [a] = (if asciiSpace a then [] else [a])"
| "TrimLeft [] = []"

text \<open>The same from the end, on the reversed string (so the last byte comes first).\<close>

fun TrimRight_rev :: "string \<Rightarrow> string" where
  "TrimRight_rev (c # b # a # s) =
     (if asciiSpace c then TrimRight_rev (b # a # s)
      else if space2 b c then TrimRight_rev (a # s)
      else if space3 a b c then TrimRight_rev s
      else c # b # a # s)"
| "TrimRight_rev [c, b] =
     (if asciiSpace c then TrimRight_rev [b] else if space2 b c then [] else [c, b])"
| "TrimRight_rev [c] = (if asciiSpace c then [] else [c])"
| "TrimRight_rev [] = []"

definition TrimSpace :: "string \<Rightarrow> string" where
  "TrimSpace s = rev (TrimRight_rev (rev (TrimLeft s)))"

text \<open>
  \<open>func (list ConnectionList) Less(i, j int) bool { return list[i].strength > list[j].strength }\<close>,
  on the two elements.
\<close>

definition Less :: "Connection \<Rightarrow> Connection \<Rightarrow> bool" where
  "Less a b = (sint (strength b) < sint (strength a))"

text \<open>
  \<open>SortByStrength\<close> is \<open>sort.Sort(list)\<close> of Go's standard library, which reorders the
  slice with \<open>Swap\<close> until no element is \<open>Less\<close> than one before it, and promises nothing
  about the order of elements neither of which is \<open>Less\<close> than the other. It is modelled
  by insertion with the \<open>Less\<close> of the source.
\<close>

fun insert_Less :: "Connection \<Rightarrow> ConnectionList \<Rightarrow> ConnectionList" where
  "insert_Less x [] = [x]"
| "insert_Less x (y # ys) = (if Less y x then y # insert_Less x ys else x # y # ys)"

definition SortByStrength :: "ConnectionList \<Rightarrow> ConnectionList" where
  "SortByStrength list = foldr insert_Less list []"

text \<open>
  The inner loop of \<open>getSearchHTML\<close>, over the matched postsynaptic names:
  a connection is appended when \<open>ConnectionStrength\<close> reports \<open>found\<close>.
\<close>

fun postName_loop ::
  "NamedConnectome \<Rightarrow> string \<Rightarrow> string list \<Rightarrow> ConnectionList \<Rightarrow> ConnectionList" where
  "postName_loop nc preName [] connections = connections"
| "postName_loop nc preName (postName # postNames) connections =
     (case ConnectionStrength nc preName postName of
        (s, found) \<Rightarrow>
          postName_loop nc preName postNames
            (if found then connections @ [\<lparr>pre = preName, post = postName, strength = s\<rparr>]
             else connections))"

text \<open>
  The outer loop, over the matched presynaptic names. The range expression of the inner
  loop, \<open>connectivity.MatchingNames(post)\<close>, is evaluated once for each presynaptic name
  (and not at all when there is none).
\<close>

fun preName_loop ::
  "NamedConnectome \<Rightarrow> string list \<Rightarrow> string list \<Rightarrow> ConnectionList \<Rightarrow> failure + ConnectionList" where
  "preName_loop nc post_patterns [] connections = Inr connections"
| "preName_loop nc post_patterns (preName # preNames) connections =
     (case MatchingNames nc post_patterns of
        Inl e \<Rightarrow> Inl e
      | Inr postNames \<Rightarrow>
          preName_loop nc post_patterns preNames (postName_loop nc preName postNames connections))"

text \<open>
  \<open>func getSearchHTML(preNames, postNames string) (text string)\<close>, up to the sorted
  connection list that the function then prints row by row (the printing is not
  modelled). The global \<open>connectivity\<close> is the first argument.
\<close>

definition getSearchHTML_connections ::
  "NamedConnectome \<Rightarrow> string \<Rightarrow> string \<Rightarrow> failure + ConnectionList" where
  "getSearchHTML_connections connectivity preNames postNames =
     (let pre_patterns = map TrimSpace (Split preNames CHR '','');
          post_patterns = map TrimSpace (Split postNames CHR '','')
      in case MatchingNames connectivity pre_patterns of
           Inl e \<Rightarrow> Inl e
         | Inr matched \<Rightarrow>
             (case preName_loop connectivity post_patterns matched [] of
                Inl e \<Rightarrow> Inl e
              | Inr connections \<Rightarrow>
                  Inr (if 0 < length connections then SortByStrength connections
                       else connections)))"

section \<open>ReadConnectionsCSV\<close>

text \<open>
  \<open>strconv.Atoi\<close> of Go's standard library: an optional sign followed by at least one
  decimal digit, and a value that fits in 64 bits; anything else is an error (\<open>None\<close>).
\<close>

definition digit :: "char \<Rightarrow> int option" where
  "digit c = (let n = (of_char c :: int) in if 48 \<le> n \<and> n \<le> 57 then Some (n - 48) else None)"

fun digits_value :: "string \<Rightarrow> int \<Rightarrow> int option" where
  "digits_value [] acc = Some acc"
| "digits_value (c # s) acc =
     (case digit c of None \<Rightarrow> None | Some d \<Rightarrow> digits_value s (acc * 10 + d))"

definition Atoi :: "string \<Rightarrow> go_int option" where
  "Atoi s =
     (case s of
        [] \<Rightarrow> None
      | c # rest \<Rightarrow>
          (let body = (if c = CHR ''-'' \<or> c = CHR ''+'' then rest else s) in
           if body = [] then None
           else (case digits_value body 0 of
                   None \<Rightarrow> None
                 | Some n \<Rightarrow>
                     if c = CHR ''-''
                     then (if n \<le> 2 ^ 63 then Some (word_of_int (- n)) else None)
                     else (if n < 2 ^ 63 then Some (word_of_int n) else None))))"

text \<open>
  What one call of \<open>csvReader.Read()\<close> returns before the end of the file: a record
  (\<open>err == nil\<close>) or an error other than \<open>io.EOF\<close> (a line that is not well-formed
  CSV or, with the reader's default settings, a record whose number of fields differs
  from that of the first record). The end of the list is \<open>io.EOF\<close>. The reader skips
  empty lines, so a record has at least one field; the model gives the index panic of
  \<open>items[0]\<close> for a record without fields.
\<close>

datatype read_result = Record "string list" | ReadError

text \<open>
  The reader of \<open>encoding/csv\<close> as \<open>csv.NewReader\<close> leaves it, with \<open>FieldsPerRecord\<close>
  equal to 0: the first record sets the expected number of fields, and every later record
  with another number of fields is returned together with the error \<open>ErrFieldCount\<close>.
  The function gives the results of all the calls of \<open>csvReader.Read()\<close> up to \<open>io.EOF\<close>
  on a file whose non-empty lines are well-formed CSV, given as the list of its records;
  its first argument is the current \<open>FieldsPerRecord\<close> of the reader.
\<close>

fun csvReader_Read :: "nat \<Rightarrow> string list list \<Rightarrow> read_result list" where
  "csvReader_Read FieldsPerRecord [] = []"
| "csvReader_Read FieldsPerRecord (record # records) =
     (if 0 < FieldsPerRecord then
        (if length record \<noteq> FieldsPerRecord then ReadError else Record record)
          # csvReader_Read FieldsPerRecord records
      else Record record # csvReader_Read (length record) records)"

text \<open>
  The loop over the fields of one record,
  \<open>for i := 0; i < len(items); i++\<close>, run on the fields from position \<open>i\<close> on.
\<close>

fun items_loop ::
  "CellList \<Rightarrow> string \<Rightarrow> nat \<Rightarrow> string list \<Rightarrow> NamedConnectome \<Rightarrow> failure + NamedConnectome" where
  "items_loop names preName i [] connects = Inr connects"
| "items_loop names preName i (item # items) connects =
     (if length names \<le> i then Inl PanicIndex
      else (case Atoi item of
              None \<Rightarrow> Inl FatalParse
            | Some s \<Rightarrow>
                items_loop names preName (Suc i) items
                  (if 0 < sint s then AddConnection connects preName (names ! i) s
                   else connects)))"

text \<open>
  The loop over the records, with the counter \<open>bodyNum\<close> and the connectome built so far;
  it returns both at \<open>io.EOF\<close>. \<open>continue\<close> skips the \<open>bodyNum++\<close> at the end of the body;
  the branch that logs a read error does not.
\<close>

fun read_loop ::
  "CellList \<Rightarrow> nat \<Rightarrow> NamedConnectome \<Rightarrow> read_result list \<Rightarrow> failure + (nat \<times> NamedConnectome)" where
  "read_loop names bodyNum connects [] = Inr (bodyNum, connects)"
| "read_loop names bodyNum connects (ReadError # rs) =
     read_loop names (Suc bodyNum) connects rs"
| "read_loop names bodyNum connects (Record items # rs) =
     (case items of
        [] \<Rightarrow> Inl PanicIndex
      | item0 # _ \<Rightarrow>
          if item0 = [] then read_loop names bodyNum connects rs
          else if length items \<noteq> length names then Inl FatalColumns
          else if length names \<le> bodyNum then Inl PanicIndex
          else (case items_loop names (names ! bodyNum) 0 items connects of
                  Inl e \<Rightarrow> Inl e
                | Inr connects' \<Rightarrow> read_loop names (Suc bodyNum) connects' rs))"

text \<open>
  \<open>func ReadConnectionsCSV(names CellList, filename string) (connects NamedConnectome)\<close>,
  on the results of reading the file.
\<close>

definition ReadConnectionsCSV :: "CellList \<Rightarrow> read_result list \<Rightarrow> failure + NamedConnectome" where
  "ReadConnectionsCSV names rs =
     (case read_loop names 0 [] rs of Inl e \<Rightarrow> Inl e | Inr (bodyNum, connects) \<Rightarrow> Inr connects)"

text \<open>
  Measures of the input, used only to say when no accumulated sum can leave the range of
  a 64-bit integer: what a field adds to an entry if its record is loaded (its value when
  it parses to a positive number, otherwise nothing), summed over a record and over the
  whole input.
\<close>

definition field_strength :: "string \<Rightarrow> int" where
  "field_strength item =
     (case Atoi item of None \<Rightarrow> 0 | Some s \<Rightarrow> if 0 < sint s then sint s else 0)"

definition record_strength :: "read_result \<Rightarrow> int" where
  "record_strength r =
     (case r of ReadError \<Rightarrow> 0 | Record items \<Rightarrow> sum_list (map field_strength items))"

definition total_strength :: "read_result list \<Rightarrow> int" where
  "total_strength rs = sum_list (map record_strength rs)"

section \<open>Properties of the lookup and of the accumulation\<close>

lemma entry_AddConnection_same:
  "entry (AddConnection nc p q s) p q =
     Some (case entry nc p q of None \<Rightarrow> s | Some old \<Rightarrow> old + s)"
  by (simp add: entry_def AddConnection_def update_conv' split: option.splits)

lemma entry_AddConnection_other:
  "(p', q') \<noteq> (p, q) \<Longrightarrow> entry (AddConnection nc p q s) p' q' = entry nc p' q'"
  by (auto simp: entry_def AddConnection_def update_conv' split: option.splits)

lemma map_of_update_same: "map_of (AList.update k v al) k = Some v"
  by (simp add: update_conv')

lemma AddConnection_twice:
  "AddConnection (AddConnection nc p q a) p q b = AddConnection nc p q (a + b)"
  by (simp add: AddConnection_def map_of_update_same add.assoc split: option.splits)

lemma set_update_subset: "set (AList.update k v al) \<subseteq> insert (k, v) (set al)"
  by (induction al) auto

lemma unique_keys_AddConnection:
  assumes "unique_keys nc"
  shows "unique_keys (AddConnection nc p q s)"
proof -
  have inner: "distinct (map fst (AList.update q v connections))"
    if "map_of nc p = Some connections" for v connections
  proof -
    from that have "connections \<in> snd ` set nc"
      by (metis map_of_SomeD image_eqI snd_conv)
    with assms show ?thesis by (auto simp: unique_keys_def distinct_update)
  qed
  have outer: "unique_keys (AList.update p new nc)" if "distinct (map fst new)" for new
    unfolding unique_keys_def
  proof (intro conjI ballI)
    from assms show "distinct (map fst (AList.update p new nc))"
      by (simp add: unique_keys_def distinct_update)
  next
    fix connections
    assume "connections \<in> snd ` set (AList.update p new nc)"
    with set_update_subset [of p new nc] have "connections = new \<or> connections \<in> snd ` set nc"
      by auto
    with that assms show "distinct (map fst connections)"
      by (auto simp: unique_keys_def)
  qed
  show ?thesis
    by (auto simp: AddConnection_def inner outer split: option.splits)
qed

text \<open>
  C6. \<open>ConnectionStrength\<close> reports \<open>found = false\<close> (with strength 0) when the pair has no
  entry and when its stored entry is exactly 0; for every other stored entry it reports
  \<open>found = true\<close> together with the stored value, so a reported \<open>found = true\<close> always
  carries the stored value. The lookup returns only the pair \<open>(strength, found)\<close>: the
  connectome it reads is not changed.
\<close>

theorem ConnectionStrength_found:
  "(entry nc p q = None \<longrightarrow> ConnectionStrength nc p q = (0, False)) \<and>
   (entry nc p q = Some 0 \<longrightarrow> ConnectionStrength nc p q = (0, False)) \<and>
   (\<forall>s. entry nc p q = Some s \<and> s \<noteq> 0 \<longrightarrow> ConnectionStrength nc p q = (s, True)) \<and>
   (snd (ConnectionStrength nc p q) \<longrightarrow> entry nc p q = Some (fst (ConnectionStrength nc p q)))"
  by (simp add: entry_def ConnectionStrength_def split: option.splits)

theorem ConnectionStrength_found_witness:
  "entry [(''A'', [(''B'', 5), (''C'', 0)])] ''A'' ''A'' = None \<and>
   ConnectionStrength [(''A'', [(''B'', 5), (''C'', 0)])] ''A'' ''A'' = (0, False) \<and>
   entry [(''A'', [(''B'', 5), (''C'', 0)])] ''A'' ''C'' = Some 0 \<and>
   ConnectionStrength [(''A'', [(''B'', 5), (''C'', 0)])] ''A'' ''C'' = (0, False) \<and>
   entry [(''A'', [(''B'', 5), (''C'', 0)])] ''A'' ''B'' = Some 5 \<and>
   ConnectionStrength [(''A'', [(''B'', 5), (''C'', 0)])] ''A'' ''B'' = (5, True)"
  using ConnectionStrength_found [of "[(''A'', [(''B'', 5), (''C'', 0)])]" "''A''" "''A''"]
        ConnectionStrength_found [of "[(''A'', [(''B'', 5), (''C'', 0)])]" "''A''" "''C''"]
        ConnectionStrength_found [of "[(''A'', [(''B'', 5), (''C'', 0)])]" "''A''" "''B''"]
  by (simp add: entry_def)

text \<open>
  C7. \<open>AddConnection\<close> accumulates: adding \<open>a\<close> and then \<open>b\<close> to a pair leaves the same
  connectome as adding \<open>a + b\<close> once, the stored strength of the pair is the earlier
  entry (if any) plus \<open>a + b\<close>, and the entry of every other pair is the one before the
  two additions. The sum is Go's wrapping 64-bit addition.
\<close>

theorem AddConnection_additive:
  "AddConnection (AddConnection nc p q a) p q b = AddConnection nc p q (a + b) \<and>
   entry (AddConnection (AddConnection nc p q a) p q b) p q =
     Some (case entry nc p q of None \<Rightarrow> a + b | Some old \<Rightarrow> old + (a + b)) \<and>
   (\<forall>p' q'. (p', q') \<noteq> (p, q) \<longrightarrow>
      entry (AddConnection (AddConnection nc p q a) p q b) p' q' = entry nc p' q')"
  by (simp add: AddConnection_twice entry_AddConnection_same entry_AddConnection_other
           del: split_paired_All)

theorem AddConnection_additive_witness:
  "entry (AddConnection (AddConnection [(''A'', [(''B'', 5)])] ''A'' ''B'' 2) ''A'' ''B'' 3) ''A'' ''B''
     = Some 10 \<and>
   (''A'', ''C'') \<noteq> (''A'', ''B'') \<and>
   entry (AddConnection (AddConnection [(''A'', [(''B'', 5)])] ''A'' ''B'' 2) ''A'' ''B'' 3) ''A'' ''C''
     = None"
proof -
  let ?nc = "[(''A'', [(''B'', 5)])] :: NamedConnectome"
  note t = AddConnection_additive [of ?nc "''A''" "''B''" 2 3]
  have e1: "entry ?nc ''A'' ''B'' = Some 5" and e2: "entry ?nc ''A'' ''C'' = None"
    by (simp_all add: entry_def)
  have d: "(''A'', ''C'') \<noteq> (''A'', ''B'')" by simp
  have "entry (AddConnection (AddConnection ?nc ''A'' ''B'' 2) ''A'' ''B'' 3) ''A'' ''B'' = Some 10"
    using t [THEN conjunct2, THEN conjunct1] unfolding e1 by simp
  moreover have "entry (AddConnection (AddConnection ?nc ''A'' ''B'' 2) ''A'' ''B'' 3) ''A'' ''C''
      = None"
    using t [THEN conjunct2, THEN conjunct2, rule_format, of "''A''" "''C''", OF d]
    unfolding e2 .
  ultimately show ?thesis using d by blast
qed

section \<open>Properties of the name matching\<close>

lemma HasPrefix_prefix: "HasPrefix s p = prefix p s"
  unfolding HasPrefix_def
  by (metis append_eq_conv_conj prefix_def prefix_length_le take_is_prefix)

lemma prefix_loop_filter:
  "prefix_loop p names matches = matches @ filter (prefix p) names"
  by (induction names arbitrary: matches) (simp_all add: HasPrefix_prefix)

lemma last_char_slice:
  "pattern \<noteq> [] \<Longrightarrow> (drop (length pattern - Suc 0) pattern = [c]) = (last pattern = c)"
  by (induction pattern rule: rev_induct) simp_all

lemma MatchingNames_loop_star:
  assumes "pattern \<noteq> []" "last pattern = CHR ''*''"
  shows "MatchingNames_loop nc (pattern # patterns) matches =
         MatchingNames_loop nc patterns (matches @ filter (prefix (butlast pattern)) (map fst nc))"
  using assms by (simp add: last_char_slice prefix_loop_filter butlast_conv_take)

lemma MatchingNames_loop_exact:
  assumes "pattern \<noteq> []" "last pattern \<noteq> CHR ''*''"
  shows "MatchingNames_loop nc (pattern # patterns) matches =
         MatchingNames_loop nc patterns
           (matches @ (if pattern \<in> fst ` set nc then [pattern] else []))"
  using assms
  by (cases "map_of nc pattern")
     (simp_all add: last_char_slice dom_map_of_conv_image_fst [symmetric] domIff)

text \<open>The loop panics exactly when some pattern is empty, whatever the connectome holds.\<close>

lemma MatchingNames_loop_fails_iff:
  "(\<exists>r. MatchingNames_loop nc patterns matches = Inr r) = ([] \<notin> set patterns)"
  "(MatchingNames_loop nc patterns matches = Inl e) = (e = PanicSliceBounds \<and> [] \<in> set patterns)"
  by (induction patterns arbitrary: matches) (auto split: option.splits)

lemma MatchingNames_loop_keys:
  "MatchingNames_loop nc patterns matches = Inr r \<Longrightarrow> set r \<subseteq> set matches \<union> fst ` set nc"
proof (induction patterns arbitrary: matches)
  case Nil
  then show ?case by auto
next
  case (Cons pattern patterns)
  show ?case
  proof (cases "pattern = []")
    case True
    with Cons.prems show ?thesis by simp
  next
    case ne: False
    show ?thesis
    proof (cases "last pattern = CHR ''*''")
      case True
      from Cons.prems Cons.IH show ?thesis
        unfolding MatchingNames_loop_star [OF ne True] by fastforce
    next
      case False
      from Cons.prems Cons.IH show ?thesis
        unfolding MatchingNames_loop_exact [OF ne False] by fastforce
    qed
  qed
qed

section \<open>Properties of the query\<close>

lemma postName_loop_set:
  "c \<in> set (postName_loop nc preName postNames connections) \<Longrightarrow>
   c \<in> set connections \<or> (pre c = preName \<and> post c \<in> set postNames)"
  by (induction postNames arbitrary: connections) (fastforce split: prod.splits if_splits)+

lemma preName_loop_set:
  "preName_loop nc post_patterns preNames connections = Inr r \<Longrightarrow> c \<in> set r \<Longrightarrow>
   c \<in> set connections \<or> (pre c \<in> set preNames \<and> post c \<in> fst ` set nc)"
proof (induction preNames arbitrary: connections)
  case Nil
  then show ?case by simp
next
  case (Cons preName preNames)
  from Cons.prems(1) obtain postNames where
    m: "MatchingNames nc post_patterns = Inr postNames" and
    r: "preName_loop nc post_patterns preNames
          (postName_loop nc preName postNames connections) = Inr r"
    by (auto split: sum.splits)
  from m have k: "set postNames \<subseteq> fst ` set nc"
    using MatchingNames_loop_keys [of nc post_patterns "[]"] by (simp add: MatchingNames_def)
  from Cons.IH [OF r Cons.prems(2)] show ?case
  proof
    assume "c \<in> set (postName_loop nc preName postNames connections)"
    from postName_loop_set [OF this] k show ?thesis by auto
  next
    assume "pre c \<in> set preNames \<and> post c \<in> fst ` set nc"
    then show ?thesis by simp
  qed
qed

lemma set_insert_Less: "set (insert_Less x ys) = insert x (set ys)"
  by (induction ys) auto

lemma set_SortByStrength: "set (SortByStrength list) = set list"
  unfolding SortByStrength_def by (induction list) (simp_all add: set_insert_Less)

lemma length_insert_Less: "length (insert_Less x ys) = Suc (length ys)"
  by (induction ys) auto

lemma length_SortByStrength: "length (SortByStrength list) = length list"
  unfolding SortByStrength_def by (induction list) (simp_all add: length_insert_Less)

lemma sorted_insert_Less:
  "sorted_wrt (\<lambda>a b. sint (strength b) \<le> sint (strength a)) ys \<Longrightarrow>
   sorted_wrt (\<lambda>a b. sint (strength b) \<le> sint (strength a)) (insert_Less x ys)"
  by (induction ys) (auto simp: set_insert_Less Less_def)

lemma sorted_SortByStrength:
  "sorted_wrt (\<lambda>a b. sint (strength b) \<le> sint (strength a)) (SortByStrength list)"
  unfolding SortByStrength_def by (induction list) (simp_all add: sorted_insert_Less)

lemma getSearchHTML_connections_keys:
  assumes "getSearchHTML_connections nc preNames postNames = Inr cs" and "c \<in> set cs"
  shows "pre c \<in> fst ` set nc \<and> post c \<in> fst ` set nc"
proof -
  let ?pp = "map TrimSpace (Split preNames CHR '','')"
  let ?qq = "map TrimSpace (Split postNames CHR '','')"
  from assms(1) obtain matched connections where
    m: "MatchingNames nc ?pp = Inr matched" and
    l: "preName_loop nc ?qq matched [] = Inr connections" and
    cs: "cs = (if 0 < length connections then SortByStrength connections else connections)"
    by (auto simp: getSearchHTML_connections_def Let_def split: sum.splits)
  from cs assms(2) have "c \<in> set connections"
    by (simp add: set_SortByStrength split: if_splits)
  from preName_loop_set [OF l this] have "pre c \<in> set matched \<and> post c \<in> fst ` set nc"
    by simp
  moreover from m have "set matched \<subseteq> fst ` set nc"
    using MatchingNames_loop_keys [of nc ?pp "[]"] by (simp add: MatchingNames_def)
  ultimately show ?thesis by auto
qed

lemma getSearchHTML_connections_sorted:
  assumes "getSearchHTML_connections nc preNames postNames = Inr cs"
  shows "sorted_wrt (\<lambda>a b. sint (strength b) \<le> sint (strength a)) cs"
proof -
  from assms obtain connections where
    cs: "cs = (if 0 < length connections then SortByStrength connections else connections)"
    by (auto simp: getSearchHTML_connections_def Let_def split: sum.splits)
  show ?thesis
  proof (cases "0 < length connections")
    case True
    with cs show ?thesis by (simp add: sorted_SortByStrength)
  next
    case False
    with cs show ?thesis by simp
  qed
qed

text \<open>
  C3. A non-empty pattern whose last character is \<open>*\<close> matches, after the \<open>*\<close> is
  stripped, exactly the keys of the connectome of which the rest is a prefix: alone it
  returns them in the order the keys are visited, in a longer pattern list it appends
  them to the matches so far, and the pattern \<open>*\<close> returns every key.
\<close>

theorem MatchingNames_prefix:
  assumes "pattern \<noteq> []" and "last pattern = CHR ''*''"
  shows "MatchingNames nc [pattern] = Inr (filter (prefix (butlast pattern)) (map fst nc)) \<and>
         set (filter (prefix (butlast pattern)) (map fst nc)) =
           {name \<in> fst ` set nc. prefix (butlast pattern) name} \<and>
         MatchingNames_loop nc (pattern # patterns) matches =
           MatchingNames_loop nc patterns
             (matches @ filter (prefix (butlast pattern)) (map fst nc)) \<and>
         MatchingNames nc [''*''] = Inr (map fst nc)"
proof -
  have "MatchingNames nc [pattern] = Inr (filter (prefix (butlast pattern)) (map fst nc))"
    unfolding MatchingNames_def MatchingNames_loop_star [OF assms] by simp
  moreover have "set (filter (prefix (butlast pattern)) (map fst nc)) =
           {name \<in> fst ` set nc. prefix (butlast pattern) name}"
    by auto
  moreover have "MatchingNames nc [''*''] = Inr (map fst nc)"
    by (simp add: MatchingNames_def prefix_loop_filter)
  ultimately show ?thesis
    using MatchingNames_loop_star [OF assms] by simp
qed

theorem MatchingNames_prefix_witness:
  "''T4*'' \<noteq> [] \<and> last ''T4*'' = CHR ''*'' \<and>
   MatchingNames [(''T4a'', [(''Mi1'', 3)]), (''Mi1'', [(''T4a'', 9)]), (''T4'', [])] [''T4*'']
     = Inr [''T4a'', ''T4'']"
  using MatchingNames_prefix [of "''T4*''"
      "[(''T4a'', [(''Mi1'', 3)]), (''Mi1'', [(''T4a'', 9)]), (''T4'', [])]"]
  by simp

text \<open>
  C4. A non-empty pattern whose last character is not \<open>*\<close> is matched if and only if it
  is, character for character, a key of the connectome (a presynaptic name): alone it
  returns itself or nothing, in a longer pattern list it appends itself or nothing.
  Whatever the patterns, the matcher returns keys only, and so both names of every
  connection that a query returns are keys: a name that occurs only as a postsynaptic
  target is matched on neither side.
\<close>

theorem MatchingNames_exact:
  assumes "pattern \<noteq> []" and "last pattern \<noteq> CHR ''*''"
  shows "MatchingNames nc [pattern] = Inr (if pattern \<in> fst ` set nc then [pattern] else []) \<and>
         MatchingNames_loop nc (pattern # patterns) matches =
           MatchingNames_loop nc patterns
             (matches @ (if pattern \<in> fst ` set nc then [pattern] else [])) \<and>
         (\<forall>ps r. MatchingNames nc ps = Inr r \<longrightarrow> set r \<subseteq> fst ` set nc) \<and>
         (\<forall>preNames postNames cs c.
            getSearchHTML_connections nc preNames postNames = Inr cs \<and> c \<in> set cs \<longrightarrow>
            pre c \<in> fst ` set nc \<and> post c \<in> fst ` set nc)"
proof -
  have "MatchingNames nc [pattern] = Inr (if pattern \<in> fst ` set nc then [pattern] else [])"
    unfolding MatchingNames_def MatchingNames_loop_exact [OF assms] by simp
  moreover have "\<forall>ps r. MatchingNames nc ps = Inr r \<longrightarrow> set r \<subseteq> fst ` set nc"
    using MatchingNames_loop_keys [of nc _ "[]"] by (simp add: MatchingNames_def)
  moreover have "\<forall>preNames postNames cs c.
            getSearchHTML_connections nc preNames postNames = Inr cs \<and> c \<in> set cs \<longrightarrow>
            pre c \<in> fst ` set nc \<and> post c \<in> fst ` set nc"
    using getSearchHTML_connections_keys by blast
  ultimately show ?thesis
    using MatchingNames_loop_exact [OF assms] by simp
qed

theorem MatchingNames_exact_witness:
  "''B'' \<noteq> [] \<and> last ''B'' \<noteq> CHR ''*'' \<and>
   MatchingNames [(''A'', [(''B'', 5)])] [''B''] = Inr [] \<and>
   MatchingNames [(''A'', [(''B'', 5)])] [''A''] = Inr [''A'']"
  using MatchingNames_exact [of "''B''" "[(''A'', [(''B'', 5)])]"]
        MatchingNames_exact [of "''A''" "[(''A'', [(''B'', 5)])]"]
  by simp

text \<open>
  C5. Whenever the query returns a connection list, the list is in descending order of
  strength: the strength at a position is at least the strength at every later position.
\<close>

theorem getSearchHTML_sorted_by_strength:
  assumes "getSearchHTML_connections nc preNames postNames = Inr cs"
    and "i < j" and "j < length cs"
  shows "sint (strength (cs ! j)) \<le> sint (strength (cs ! i))"
  using getSearchHTML_connections_sorted [OF assms(1)] assms(2,3)
  by (simp add: sorted_wrt_iff_nth_less)

theorem getSearchHTML_sorted_by_strength_witness:
  "getSearchHTML_connections [(''A'', [(''B'', 5), (''A'', 7)]), (''B'', [(''A'', 2)])] ''B, A*'' ''*''
     = Inr [\<lparr>pre = ''A'', post = ''A'', strength = 7\<rparr>, \<lparr>pre = ''A'', post = ''B'', strength = 5\<rparr>,
            \<lparr>pre = ''B'', post = ''A'', strength = 2\<rparr>] \<and>
   (0::nat) < 2 \<and>
   2 < length [\<lparr>pre = ''A'', post = ''A'', strength = 7\<rparr>, \<lparr>pre = ''A'', post = ''B'', strength = 5\<rparr>,
               \<lparr>pre = ''B'', post = ''A'', strength = 2\<rparr>] \<and>
   sint (2 :: go_int) \<le> sint (7 :: go_int)"
proof -
  have q: "getSearchHTML_connections [(''A'', [(''B'', 5), (''A'', 7)]), (''B'', [(''A'', 2)])]
             ''B, A*'' ''*''
     = Inr [\<lparr>pre = ''A'', post = ''A'', strength = 7\<rparr>, \<lparr>pre = ''A'', post = ''B'', strength = 5\<rparr>,
            \<lparr>pre = ''B'', post = ''A'', strength = 2\<rparr>]"
    by code_simp
  from getSearchHTML_sorted_by_strength [OF q, of 0 2] show ?thesis
    using q by simp
qed

text \<open>
  C1. The query does not always return: an empty source pattern string (an empty search
  box) is split into the single empty pattern, and \<open>MatchingNames\<close> panics on it when it
  slices the last character, for every connectome and every target pattern string.
\<close>

theorem getSearchHTML_empty_pattern_panics:
  "getSearchHTML_connections nc '''' postNames = Inl PanicSliceBounds"
  by (simp add: getSearchHTML_connections_def TrimSpace_def MatchingNames_def)


lemma preName_loop_returns:
  "[] \<notin> set post_patterns \<Longrightarrow> \<exists>r. preName_loop nc post_patterns preNames connections = Inr r"
proof (induction preNames arbitrary: connections)
  case Nil
  show ?case by simp
next
  case (Cons preName preNames)
  from Cons.prems obtain postNames where "MatchingNames nc post_patterns = Inr postNames"
    using MatchingNames_loop_fails_iff(1) [of nc post_patterns "[]"]
    by (auto simp: MatchingNames_def)
  with Cons.IH [OF Cons.prems] show ?case by simp
qed

text \<open>The query returns a list whenever no pattern of either side is empty after trimming.\<close>

lemma getSearchHTML_connections_returns:
  assumes "[] \<notin> set (map TrimSpace (Split preNames CHR '',''))"
    and "[] \<notin> set (map TrimSpace (Split postNames CHR '',''))"
  shows "\<exists>cs. getSearchHTML_connections nc preNames postNames = Inr cs"
proof -
  from assms(1) obtain matched where
    m: "MatchingNames nc (map TrimSpace (Split preNames CHR '','')) = Inr matched"
    using MatchingNames_loop_fails_iff(1) [of nc "map TrimSpace (Split preNames CHR '','')" "[]"]
    by (auto simp: MatchingNames_def)
  from preName_loop_returns [OF assms(2)] obtain r where
    "preName_loop nc (map TrimSpace (Split postNames CHR '','')) matched [] = Inr r"
    by blast
  with m show ?thesis by (simp add: getSearchHTML_connections_def)
qed

section \<open>Properties of the connectome load\<close>

lemma read_loop_append:
  "read_loop names n c (rs1 @ rs2) =
     (case read_loop names n c rs1 of Inl e \<Rightarrow> Inl e | Inr (k, c1) \<Rightarrow> read_loop names k c1 rs2)"
proof (induction rs1 arbitrary: n c)
  case Nil
  show ?case by simp
next
  case (Cons r rs1)
  show ?case
  proof (cases r)
    case ReadError
    then show ?thesis by (simp add: Cons.IH)
  next
    case (Record items)
    then show ?thesis
      by (cases items) (simp_all add: Cons.IH split: sum.splits)
  qed
qed

text \<open>How far the counter moves depends on the records only, not on where it starts.\<close>

lemma read_loop_counter:
  "read_loop names n c rs = Inr (k, c') \<Longrightarrow> read_loop names m d rs = Inr (j, d') \<Longrightarrow>
   j + n = k + m"
proof (induction rs arbitrary: n c m d)
  case Nil
  then show ?case by simp
next
  case (Cons r rs)
  show ?case
  proof (cases r)
    case ReadError
    with Cons.prems have "read_loop names (Suc n) c rs = Inr (k, c')"
      and "read_loop names (Suc m) d rs = Inr (j, d')" by simp_all
    from Cons.IH [OF this] show ?thesis by simp
  next
    case (Record items)
    show ?thesis
    proof (cases items)
      case Nil
      with Cons.prems(1) Record show ?thesis by simp
    next
      case (Cons item0 more_items)
      note items = this
      show ?thesis
      proof (cases "item0 = []")
        case True
        with Cons.prems Record items have "read_loop names n c rs = Inr (k, c')"
          and "read_loop names m d rs = Inr (j, d')" by simp_all
        from Cons.IH [OF this] show ?thesis .
      next
        case False
        with Cons.prems Record items obtain c1 d1 where
          "read_loop names (Suc n) c1 rs = Inr (k, c')"
          and "read_loop names (Suc m) d1 rs = Inr (j, d')"
          by (auto split: if_splits sum.splits)
        from Cons.IH [OF this] show ?thesis by simp
      qed
    qed
  qed
qed

text \<open>The load returns a connectome in which each key occurs once.\<close>

lemma unique_keys_items_loop:
  "items_loop names pn i items c = Inr c' \<Longrightarrow> unique_keys c \<Longrightarrow> unique_keys c'"
  by (induction items arbitrary: i c)
     (auto simp: unique_keys_AddConnection split: if_splits option.splits)

lemma unique_keys_read_loop:
  "read_loop names n c rs = Inr (k, c') \<Longrightarrow> unique_keys c \<Longrightarrow> unique_keys c'"
proof (induction rs arbitrary: n c)
  case Nil
  then show ?case by simp
next
  case (Cons r rs)
  show ?case
  proof (cases r)
    case ReadError
    with Cons show ?thesis by simp
  next
    case (Record items)
    show ?thesis
    proof (cases "\<exists>c1. items_loop names (names ! n) 0 items c = Inr c1 \<and>
                    read_loop names (Suc n) c1 rs = Inr (k, c')")
      case True
      then obtain c1 where row: "items_loop names (names ! n) 0 items c = Inr c1"
        and rest: "read_loop names (Suc n) c1 rs = Inr (k, c')" by blast
      from Cons.IH [OF rest unique_keys_items_loop [OF row Cons.prems(2)]] show ?thesis .
    next
      case False
      with Cons.prems(1) Record have "read_loop names n c rs = Inr (k, c')"
        by (cases items) (auto simp del: items_loop.simps split: if_splits sum.splits)
      from Cons.IH [OF this Cons.prems(2)] show ?thesis .
    qed
  qed
qed

lemma unique_keys_ReadConnectionsCSV:
  "ReadConnectionsCSV names rs = Inr connects \<Longrightarrow> unique_keys connects"
  using unique_keys_read_loop [of names 0 "[]" rs]
  by (auto simp: ReadConnectionsCSV_def unique_keys_def split: sum.splits)

lemma csvReader_Read_append:
  "0 < f \<Longrightarrow> csvReader_Read f (l1 @ l2) = csvReader_Read f l1 @ csvReader_Read f l2"
  by (induction l1) simp_all

lemma length_csvReader_Read: "length (csvReader_Read f l) = length l"
  by (induction l arbitrary: f) simp_all

lemma read_loop_blank_within:
  "read_loop names n c (rs1 @ Record ([] # more_items) # rs2) = read_loop names n c (rs1 @ rs2)"
  by (simp add: read_loop_append [of _ _ _ rs1] split: sum.splits prod.splits)

lemma csvReader_Read_blank_split:
  assumes "records1 @ records2 \<noteq> [] \<longrightarrow>
           length (hd (records1 @ records2)) = Suc (length more_items)"
  shows "\<exists>rs1 rs2. length rs1 = length records1 \<and>
           csvReader_Read 0 (records1 @ ([] # more_items) # records2)
             = rs1 @ Record ([] # more_items) # rs2 \<and>
           csvReader_Read 0 (records1 @ records2) = rs1 @ rs2"
proof (cases records1)
  case Nil
  note r1 = this
  let ?f = "Suc (length more_items)"
  have "csvReader_Read 0 records2 = csvReader_Read ?f records2"
  proof (cases records2)
    case Nil
    then show ?thesis by simp
  next
    case (Cons r l)
    with r1 assms have "length r = ?f" by simp
    with Cons show ?thesis by simp
  qed
  with r1 have "length ([] :: read_result list) = length records1 \<and>
      csvReader_Read 0 (records1 @ ([] # more_items) # records2)
        = [] @ Record ([] # more_items) # csvReader_Read ?f records2 \<and>
      csvReader_Read 0 (records1 @ records2) = [] @ csvReader_Read ?f records2"
    by simp
  then show ?thesis by blast
next
  case (Cons r l1)
  with assms have len: "length r = Suc (length more_items)" by simp
  let ?f = "Suc (length more_items)"
  have "length (Record r # csvReader_Read ?f l1) = length records1"
    using Cons by (simp add: length_csvReader_Read)
  moreover have "csvReader_Read 0 (records1 @ ([] # more_items) # records2)
          = (Record r # csvReader_Read ?f l1) @ Record ([] # more_items) # csvReader_Read ?f records2"
    using Cons len by (simp add: csvReader_Read_append)
  moreover have "csvReader_Read 0 (records1 @ records2)
          = (Record r # csvReader_Read ?f l1) @ csvReader_Read ?f records2"
    using Cons len by (simp add: csvReader_Read_append)
  ultimately show ?thesis by blast
qed

text \<open>
  C9, as the code has it. The read error is tested before the blank first field, and the
  reader returns a record whose number of fields differs from that of the first record
  together with an error: such a record takes the branch of the read error and moves the
  counter even when its first field is blank (the counterexample below). A record that
  is read without error and whose first field is blank leaves the counter and the
  connectome as they are: the loop goes on with the following results exactly as if
  that record had not been returned. For a file of well-formed lines in which the
  blank-first record has as many fields as the first of the other records, the record
  is read without error and the load of the file is the load of the file without it.
\<close>

theorem blank_record_keeps_counter:
  "read_loop names n c [Record ([] # more_items)] = Inr (n, c) \<and>
   read_loop names n c (Record ([] # more_items) # rs) = read_loop names n c rs \<and>
   read_loop names n c (rs1 @ Record ([] # more_items) # rs2) = read_loop names n c (rs1 @ rs2) \<and>
   ((records1 @ records2 \<noteq> [] \<longrightarrow>
       length (hd (records1 @ records2)) = length ([] # more_items)) \<longrightarrow>
    csvReader_Read 0 (records1 @ ([] # more_items) # records2) ! length records1
      = Record ([] # more_items) \<and>
    ReadConnectionsCSV names (csvReader_Read 0 (records1 @ ([] # more_items) # records2)) =
      ReadConnectionsCSV names (csvReader_Read 0 (records1 @ records2)))"
proof -
  have at_file: "csvReader_Read 0 (records1 @ ([] # more_items) # records2) ! length records1
      = Record ([] # more_items) \<and>
    ReadConnectionsCSV names (csvReader_Read 0 (records1 @ ([] # more_items) # records2)) =
      ReadConnectionsCSV names (csvReader_Read 0 (records1 @ records2))"
    if "records1 @ records2 \<noteq> [] \<longrightarrow>
       length (hd (records1 @ records2)) = Suc (length more_items)"
  proof -
    from csvReader_Read_blank_split [OF that] obtain r1 r2 where
      l: "length r1 = length records1" and
      w: "csvReader_Read 0 (records1 @ ([] # more_items) # records2)
             = r1 @ Record ([] # more_items) # r2" and
      wo: "csvReader_Read 0 (records1 @ records2) = r1 @ r2"
      by blast
    from l have "(r1 @ Record ([] # more_items) # r2) ! length records1 = Record ([] # more_items)"
      by (simp add: nth_append)
    then show ?thesis
      unfolding w wo ReadConnectionsCSV_def read_loop_blank_within by simp
  qed
  have "read_loop names n c [Record ([] # more_items)] = Inr (n, c)"
    and "read_loop names n c (Record ([] # more_items) # rs) = read_loop names n c rs"
    by simp_all
  with at_file read_loop_blank_within [of names n c rs1 more_items rs2] show ?thesis
    by simp
qed

theorem blank_record_keeps_counter_witness:
  "[[''0'', ''5'', ''0'']] @ [[''2'', ''0'', ''0'']] \<noteq> [] \<and>
   length (hd ([[''0'', ''5'', ''0'']] @ [[''2'', ''0'', ''0'']])) = length ['''', ''x'', ''y''] \<and>
   csvReader_Read 0 [[''0'', ''5'', ''0''], ['''', ''x'', ''y''], [''2'', ''0'', ''0'']]
     = [Record [''0'', ''5'', ''0''], Record ['''', ''x'', ''y''], Record [''2'', ''0'', ''0'']] \<and>
   ReadConnectionsCSV [''A'', ''B'', ''C'']
     (csvReader_Read 0 [[''0'', ''5'', ''0''], ['''', ''x'', ''y''], [''2'', ''0'', ''0'']])
     = Inr [(''A'', [(''B'', 5)]), (''B'', [(''A'', 2)])]"
proof -
  have h: "[[''0'', ''5'', ''0'']] @ [[''2'', ''0'', ''0'']] \<noteq> [] \<longrightarrow>
     length (hd ([[''0'', ''5'', ''0'']] @ [[''2'', ''0'', ''0'']])) = length ['''', ''x'', ''y'']"
    by simp
  have without: "ReadConnectionsCSV [''A'', ''B'', ''C'']
     (csvReader_Read 0 ([[''0'', ''5'', ''0'']] @ [[''2'', ''0'', ''0'']]))
     = Inr [(''A'', [(''B'', 5)]), (''B'', [(''A'', 2)])]"
    by code_simp
  have res: "csvReader_Read 0 [[''0'', ''5'', ''0''], ['''', ''x'', ''y''], [''2'', ''0'', ''0'']]
     = [Record [''0'', ''5'', ''0''], Record ['''', ''x'', ''y''], Record [''2'', ''0'', ''0'']]"
    by code_simp
  from blank_record_keeps_counter [of "[''A'', ''B'', ''C'']" 0 "[]" "[''x'', ''y'']" "[]" "[]" "[]"
         "[[''0'', ''5'', ''0'']]" "[[''2'', ''0'', ''0'']]"] h
  have "ReadConnectionsCSV [''A'', ''B'', ''C'']
     (csvReader_Read 0 ([[''0'', ''5'', ''0'']] @ ['''', ''x'', ''y''] # [[''2'', ''0'', ''0'']]))
     = ReadConnectionsCSV [''A'', ''B'', ''C'']
     (csvReader_Read 0 ([[''0'', ''5'', ''0'']] @ [[''2'', ''0'', ''0'']]))"
    by blast
  with without have "ReadConnectionsCSV [''A'', ''B'', ''C'']
     (csvReader_Read 0 [[''0'', ''5'', ''0''], ['''', ''x'', ''y''], [''2'', ''0'', ''0'']])
     = Inr [(''A'', [(''B'', 5)]), (''B'', [(''A'', 2)])]"
    by simp
  moreover have "[[''0'', ''5'', ''0'']] @ [[''2'', ''0'', ''0'']] \<noteq> []"
    and "length (hd ([[''0'', ''5'', ''0'']] @ [[''2'', ''0'', ''0'']])) = length ['''', ''x'', ''y'']"
    by simp_all
  ultimately show ?thesis using res by blast
qed

theorem blank_record_read_error_counterexample:
  "csvReader_Read 0 [[''0'', ''5'', ''0''], ['''', ''x''], [''2'', ''0'', ''0'']]
     = [Record [''0'', ''5'', ''0''], ReadError, Record [''2'', ''0'', ''0'']] \<and>
   ReadConnectionsCSV [''A'', ''B'', ''C'']
     (csvReader_Read 0 [[''0'', ''5'', ''0''], ['''', ''x''], [''2'', ''0'', ''0'']])
     = Inr [(''A'', [(''B'', 5)]), (''C'', [(''A'', 2)])] \<and>
   ReadConnectionsCSV [''A'', ''B'', ''C'']
     (csvReader_Read 0 [[''0'', ''5'', ''0''], [''2'', ''0'', ''0'']])
     = Inr [(''A'', [(''B'', 5)]), (''B'', [(''A'', 2)])]"
  by code_simp

text \<open>
  C10. A read error adds no connection and moves the counter by one. After any records
  that were loaded up to counter \<open>k\<close>, the records that follow the error are loaded from
  counter \<open>k + 1\<close> where without the error they are loaded from \<open>k\<close>, and whenever both
  loads reach the end of the file the final counter with the error is one greater.
\<close>

theorem read_error_advances_counter:
  "read_loop names n c [ReadError] = Inr (Suc n, c) \<and>
   read_loop names n c (ReadError # rs) = read_loop names (Suc n) c rs \<and>
   (\<forall>k c1. read_loop names n c rs1 = Inr (k, c1) \<longrightarrow>
      read_loop names n c (rs1 @ [ReadError]) = Inr (Suc k, c1) \<and>
      read_loop names n c (rs1 @ ReadError # rs2) = read_loop names (Suc k) c1 rs2 \<and>
      read_loop names n c (rs1 @ rs2) = read_loop names k c1 rs2) \<and>
   (\<forall>k c1 j d1. read_loop names n c (rs1 @ rs2) = Inr (k, c1) \<and>
      read_loop names n c (rs1 @ ReadError # rs2) = Inr (j, d1) \<longrightarrow> j = Suc k)"
proof -
  have "j = Suc k"
    if a: "read_loop names n c (rs1 @ rs2) = Inr (k, c1)"
    and b: "read_loop names n c (rs1 @ ReadError # rs2) = Inr (j, d1)" for k c1 j d1
  proof -
    from a obtain i e where p: "read_loop names n c rs1 = Inr (i, e)"
      and a': "read_loop names i e rs2 = Inr (k, c1)"
      by (auto simp: read_loop_append [of _ _ _ rs1] split: sum.splits)
    from b p have "read_loop names (Suc i) e rs2 = Inr (j, d1)"
      by (simp add: read_loop_append [of _ _ _ rs1])
    from read_loop_counter [OF a' this] show ?thesis by simp
  qed
  then have shift: "\<forall>k c1 j d1. read_loop names n c (rs1 @ rs2) = Inr (k, c1) \<and>
      read_loop names n c (rs1 @ ReadError # rs2) = Inr (j, d1) \<longrightarrow> j = Suc k"
    by blast
  have "\<forall>k c1. read_loop names n c rs1 = Inr (k, c1) \<longrightarrow>
      read_loop names n c (rs1 @ [ReadError]) = Inr (Suc k, c1) \<and>
      read_loop names n c (rs1 @ ReadError # rs2) = read_loop names (Suc k) c1 rs2 \<and>
      read_loop names n c (rs1 @ rs2) = read_loop names k c1 rs2"
    by (simp add: read_loop_append [of _ _ _ rs1])
  with shift show ?thesis by simp
qed

theorem read_error_advances_counter_witness:
  "ReadConnectionsCSV [''A'', ''B'', ''C''] [ReadError, Record [''0'', ''5'', ''0'']]
      = Inr [(''B'', [(''B'', 5)])] \<and>
   ReadConnectionsCSV [''A'', ''B'', ''C''] [Record [''0'', ''5'', ''0'']]
      = Inr [(''A'', [(''B'', 5)])]"
proof -
  have "read_loop [''A'', ''B'', ''C''] 0 [] (ReadError # [Record [''0'', ''5'', ''0'']])
      = read_loop [''A'', ''B'', ''C''] (Suc 0) [] [Record [''0'', ''5'', ''0'']]"
    using read_error_advances_counter [of "[''A'', ''B'', ''C'']" 0 "[]"] by blast
  moreover have "read_loop [''A'', ''B'', ''C''] (Suc 0) [] [Record [''0'', ''5'', ''0'']]
      = Inr (2, [(''B'', [(''B'', 5)])])"
    by code_simp
  moreover have "ReadConnectionsCSV [''A'', ''B'', ''C''] [Record [''0'', ''5'', ''0'']]
      = Inr [(''A'', [(''B'', 5)])]"
    by code_simp
  ultimately show ?thesis by (simp add: ReadConnectionsCSV_def)
qed

text \<open>
  C8, as the code has it. The blank first field is tested before the number of fields:
  a record that was read without error and has a blank first field is skipped whatever
  its length (the last part of the theorem, and the counterexample below). A record that
  was read without error, has a non-blank first field and has a number of fields other
  than the length of the name table stops the load with the fatal column error as soon
  as the loop reaches it, and no input that contains such a record yields a connectome.
\<close>

theorem shape_mismatch_is_fatal:
  assumes "item0 \<noteq> []" and "length (item0 # more_items) \<noteq> length names"
  shows "read_loop names n c (Record (item0 # more_items) # rs) = Inl FatalColumns \<and>
         (\<forall>k c1. read_loop names n c rs1 = Inr (k, c1) \<longrightarrow>
            read_loop names n c (rs1 @ Record (item0 # more_items) # rs2) = Inl FatalColumns) \<and>
         (\<forall>connects.
            ReadConnectionsCSV names (rs1 @ Record (item0 # more_items) # rs2) \<noteq> Inr connects) \<and>
         (\<forall>blank_items.
            read_loop names n c (Record ([] # blank_items) # rs) = read_loop names n c rs)"
  using assms
  by (auto simp: read_loop_append [of _ _ _ rs1] ReadConnectionsCSV_def split: sum.splits)

theorem shape_mismatch_is_fatal_witness:
  "''2'' \<noteq> [] \<and> length [''2'', ''0''] \<noteq> length [''A'', ''B'', ''C''] \<and>
   read_loop [''A'', ''B'', ''C''] 0 [] [Record [''2'', ''0'']] = Inl FatalColumns"
  using shape_mismatch_is_fatal [of "''2''" "[''0'']" "[''A'', ''B'', ''C'']" 0 "[]" "[]"]
  by simp

theorem shape_mismatch_skipped_counterexample:
  "length ['''', ''1''] \<noteq> length [''A'', ''B'', ''C''] \<and>
   ReadConnectionsCSV [''A'', ''B'', ''C''] [Record ['''', ''1'']] = Inr []"
  by (simp add: ReadConnectionsCSV_def)


section \<open>Stored strengths after a load\<close>

lemma entry_AddConnection:
  "entry (AddConnection nc p q s) p' q' =
     (if (p', q') = (p, q) then Some (case entry nc p q of None \<Rightarrow> s | Some old \<Rightarrow> old + s)
      else entry nc p' q')"
  using entry_AddConnection_same [of nc p q s] entry_AddConnection_other [of p' q' p q nc s]
  by auto

lemma sint_add_no_overflow:
  fixes a b :: go_int
  assumes "0 < sint a" "0 < sint b" "sint a + sint b < 2 ^ 63"
  shows "sint (a + b) = sint a + sint b"
proof -
  have "sint (a + b) = signed_take_bit 63 (sint a + sint b)"
    by (simp add: sint_word_ariths)
  also have "\<dots> = sint a + sint b"
    using assms by (intro signed_take_bit_int_eq_self) simp_all
  finally show ?thesis .
qed

lemma nth_notin_take: "distinct xs \<Longrightarrow> i < length xs \<Longrightarrow> xs ! i \<notin> set (take i xs)"
  by (metis distinct_take id_take_nth_drop distinct_append disjoint_iff list.set_intros(1) distinct_drop
      append_take_drop_id Cons_nth_drop_Suc)

lemma field_strength_nonneg: "0 \<le> field_strength item"
  by (simp add: field_strength_def split: option.splits)

lemma fields_strength_nonneg: "0 \<le> sum_list (map field_strength items)"
  by (induction items) (simp_all add: field_strength_nonneg)

lemma record_strength_nonneg: "0 \<le> record_strength r"
  by (simp add: record_strength_def fields_strength_nonneg split: read_result.splits)

lemma total_strength_nonneg: "0 \<le> total_strength rs"
  unfolding total_strength_def by (induction rs) (simp_all add: record_strength_nonneg)

text \<open>
  With pairwise distinct names, a row never meets an entry it has to add to: when the row
  of \<open>pn\<close> starts, \<open>pn\<close> has no entry, and the fields before position \<open>i\<close> have filled
  only the columns before \<open>i\<close>.
\<close>

lemma items_loop_distinct:
  assumes d: "distinct names"
  shows "items_loop names pn i items c = Inr c' \<Longrightarrow>
         (\<forall>p q s. entry c p q = Some s \<longrightarrow>
            0 < sint s \<and> (p \<noteq> pn \<or> q \<in> set (take i names))) \<Longrightarrow>
         entry c' p q = Some s \<Longrightarrow>
         0 < sint s \<and> (p \<noteq> pn \<longrightarrow> entry c p q = Some s)"
proof (induction items arbitrary: i c)
  case Nil
  then show ?case by simp
next
  case (Cons item items)
  from Cons.prems(1) have i: "i < length names"
    by (simp split: if_splits)
  with Cons.prems(1) obtain v where
    v: "Atoi item = Some v" and
    r: "items_loop names pn (Suc i) items
          (if 0 < sint v then AddConnection c pn (names ! i) v else c) = Inr c'"
    by (auto split: option.splits)
  let ?c1 = "if 0 < sint v then AddConnection c pn (names ! i) v else c"
  have fresh: "entry c pn (names ! i) = None"
  proof (cases "entry c pn (names ! i)")
    case None
    then show ?thesis .
  next
    case (Some w)
    with Cons.prems(2) have "names ! i \<in> set (take i names)" by blast
    with nth_notin_take [OF d i] show ?thesis by simp
  qed
  have t: "set (take (Suc i) names) = insert (names ! i) (set (take i names))"
    using i by (simp add: take_Suc_conv_app_nth)
  have inv: "\<forall>p q s. entry ?c1 p q = Some s \<longrightarrow>
            0 < sint s \<and> (p \<noteq> pn \<or> q \<in> set (take (Suc i) names))"
    using Cons.prems(2) fresh t
    by (auto simp: entry_AddConnection split: if_splits)
  from Cons.IH [OF r inv Cons.prems(3)]
  have "0 < sint s" and o: "p \<noteq> pn \<longrightarrow> entry ?c1 p q = Some s"
    by simp_all
  moreover have "p \<noteq> pn \<longrightarrow> entry ?c1 p q = entry c p q"
    by (simp add: entry_AddConnection)
  ultimately show ?case by simp
qed

lemma read_loop_distinct:
  assumes d: "distinct names"
  shows "read_loop names n c rs = Inr (k, c') \<Longrightarrow>
         (\<forall>p q s. entry c p q = Some s \<longrightarrow> 0 < sint s \<and> p \<in> set (take n names)) \<Longrightarrow>
         entry c' p q = Some s \<Longrightarrow> 0 < sint s"
proof (induction rs arbitrary: n c)
  case Nil
  then show ?case by auto
next
  case (Cons r rs)
  show ?case
  proof (cases r)
    case ReadError
    have "\<forall>p q s. entry c p q = Some s \<longrightarrow> 0 < sint s \<and> p \<in> set (take (Suc n) names)"
      using Cons.prems(2) set_take_subset_set_take [of n "Suc n" names] by auto
    from Cons.IH [OF _ this Cons.prems(3)] Cons.prems(1) ReadError show ?thesis by simp
  next
    case (Record items)
    show ?thesis
    proof (cases items)
      case Nil
      with Cons.prems(1) Record show ?thesis by simp
    next
      case (Cons item0 more_items)
      note items = this
      show ?thesis
      proof (cases "item0 = []")
        case True
        with Cons.prems Cons.IH Record items show ?thesis by simp
      next
        case False
        with Cons.prems(1) Record items obtain c1 where
          n: "n < length names" and
          row: "items_loop names (names ! n) 0 items c = Inr c1" and
          rest: "read_loop names (Suc n) c1 rs = Inr (k, c')"
          by (auto split: if_splits sum.splits)
        have fresh: "\<forall>p q s. entry c p q = Some s \<longrightarrow>
            0 < sint s \<and> (p \<noteq> names ! n \<or> q \<in> set (take 0 names))"
          using Cons.prems(2) nth_notin_take [OF d n] by auto
        have t: "set (take (Suc n) names) = insert (names ! n) (set (take n names))"
          using n by (simp add: take_Suc_conv_app_nth)
        have "\<forall>p q s. entry c1 p q = Some s \<longrightarrow> 0 < sint s \<and> p \<in> set (take (Suc n) names)"
        proof (intro allI impI)
          fix p q s
          assume e: "entry c1 p q = Some s"
          from items_loop_distinct [OF d row fresh e] Cons.prems(2) t
          show "0 < sint s \<and> p \<in> set (take (Suc n) names)"
            by auto
        qed
        from Cons.IH [OF rest this Cons.prems(3)] show ?thesis .
      qed
    qed
  qed
qed

text \<open>
  Without that, entries are added to; they stay positive as long as what has been added
  so far (\<open>B\<close>) and what the rest of the input can still add stay below \<open>2 ^ 63\<close>.
\<close>

lemma items_loop_bounded:
  "items_loop names pn i items c = Inr c' \<Longrightarrow>
   0 \<le> B \<Longrightarrow> B + sum_list (map field_strength items) < 2 ^ 63 \<Longrightarrow>
   (\<forall>p q s. entry c p q = Some s \<longrightarrow> 0 < sint s \<and> sint s \<le> B) \<Longrightarrow>
   entry c' p q = Some s \<Longrightarrow>
   0 < sint s \<and> sint s \<le> B + sum_list (map field_strength items)"
proof (induction items arbitrary: i c B)
  case Nil
  then show ?case by simp
next
  case (Cons item items)
  from Cons.prems(1) obtain v where
    v: "Atoi item = Some v" and
    r: "items_loop names pn (Suc i) items
          (if 0 < sint v then AddConnection c pn (names ! i) v else c) = Inr c'"
    by (auto split: if_splits option.splits)
  let ?c1 = "if 0 < sint v then AddConnection c pn (names ! i) v else c"
  let ?B1 = "B + field_strength item"
  note nn = fields_strength_nonneg [of items] field_strength_nonneg [of item]
  have B1: "0 \<le> ?B1" using Cons.prems(2) nn by simp
  have lim: "?B1 + sum_list (map field_strength items) < 2 ^ 63"
    using Cons.prems(3) by simp
  have inv: "\<forall>p q s. entry ?c1 p q = Some s \<longrightarrow> 0 < sint s \<and> sint s \<le> ?B1"
  proof (cases "0 < sint v")
    case False
    with v have "field_strength item = 0" by (simp add: field_strength_def)
    with False Cons.prems(4) show ?thesis by simp
  next
    case True
    with v have fs: "field_strength item = sint v" by (simp add: field_strength_def)
    show ?thesis
    proof (intro allI impI)
      fix p' q' s'
      assume e: "entry ?c1 p' q' = Some s'"
      show "0 < sint s' \<and> sint s' \<le> ?B1"
      proof (cases "(p', q') = (pn, names ! i)")
        case False
        with e True have "entry c p' q' = Some s'"
          by (auto simp: entry_AddConnection split: if_splits)
        with Cons.prems(4) nn show ?thesis by fastforce
      next
        case same: True
        show ?thesis
        proof (cases "entry c pn (names ! i)")
          case None
          with e True same have "s' = v" by (simp add: entry_AddConnection)
          with True fs Cons.prems(2) show ?thesis by simp
        next
          case (Some old)
          with e True same have s': "s' = old + v" by (simp add: entry_AddConnection)
          from Some Cons.prems(4) have old: "0 < sint old" "sint old \<le> B" by auto
          have "sint old + sint v < 2 ^ 63"
            using old lim fs nn by simp
          from sint_add_no_overflow [OF old(1) True this] old True fs s'
          show ?thesis by simp
        qed
      qed
    qed
  qed
  from Cons.IH [OF r B1 lim inv Cons.prems(5)] show ?case by (simp add: add.assoc)
qed

lemma read_loop_bounded:
  "read_loop names n c rs = Inr (k, c') \<Longrightarrow>
   0 \<le> B \<Longrightarrow> B + total_strength rs < 2 ^ 63 \<Longrightarrow>
   (\<forall>p q s. entry c p q = Some s \<longrightarrow> 0 < sint s \<and> sint s \<le> B) \<Longrightarrow>
   entry c' p q = Some s \<Longrightarrow> 0 < sint s"
proof (induction rs arbitrary: n c B)
  case Nil
  then show ?case by auto
next
  case (Cons r rs)
  note nn = total_strength_nonneg [of rs] record_strength_nonneg [of r]
  have tot: "total_strength (r # rs) = record_strength r + total_strength rs"
    by (simp add: total_strength_def)
  let ?B1 = "B + record_strength r"
  have B1: "0 \<le> ?B1" and lim: "?B1 + total_strength rs < 2 ^ 63"
    using Cons.prems(2,3) nn tot by simp_all
  have weak: "\<forall>p q s. entry c p q = Some s \<longrightarrow> 0 < sint s \<and> sint s \<le> ?B1"
    using Cons.prems(4) nn by fastforce
  show ?case
  proof (cases r)
    case ReadError
    with Cons.prems(1) have "read_loop names (Suc n) c rs = Inr (k, c')" by simp
    from Cons.IH [OF this B1 lim weak Cons.prems(5)] show ?thesis .
  next
    case (Record items)
    show ?thesis
    proof (cases items)
      case Nil
      with Cons.prems(1) Record show ?thesis by simp
    next
      case (Cons item0 more_items)
      note items = this
      show ?thesis
      proof (cases "item0 = []")
        case True
        with Cons.prems(1) Record items have "read_loop names n c rs = Inr (k, c')" by simp
        from Cons.IH [OF this B1 lim weak Cons.prems(5)] show ?thesis .
      next
        case False
        with Cons.prems(1) Record items obtain c1 where
          row: "items_loop names (names ! n) 0 items c = Inr c1" and
          rest: "read_loop names (Suc n) c1 rs = Inr (k, c')"
          by (auto split: if_splits sum.splits)
        have rs: "record_strength r = sum_list (map field_strength items)"
          using Record by (simp add: record_strength_def)
        have "B + sum_list (map field_strength items) < 2 ^ 63"
          using lim nn rs by simp
        from items_loop_bounded [OF row Cons.prems(2) this Cons.prems(4)]
        have "\<forall>p q s. entry c1 p q = Some s \<longrightarrow> 0 < sint s \<and> sint s \<le> ?B1"
          using rs by simp
        from Cons.IH [OF rest B1 lim this Cons.prems(5)] show ?thesis .
      qed
    qed
  qed
qed

text \<open>
  C2, as the code has it. The sums are 64-bit and wrap around, so a name that occurs
  twice in the name table can accumulate a negative entry (the counterexample below).
  When the names are pairwise distinct, or when the positive field values of the whole
  input sum to less than \<open>2 ^ 63\<close>, every strength stored in the connectome that the load
  returns is strictly positive.
\<close>

theorem ReadConnectionsCSV_positive:
  assumes "distinct names \<or> total_strength rs < 2 ^ 63"
    and "ReadConnectionsCSV names rs = Inr connects"
    and "entry connects p q = Some s"
  shows "0 < sint s"
proof -
  from assms(2) obtain k where l: "read_loop names 0 [] rs = Inr (k, connects)"
    by (auto simp: ReadConnectionsCSV_def split: sum.splits)
  from assms(1) show ?thesis
  proof
    assume "distinct names"
    from read_loop_distinct [OF this l _ assms(3)] show ?thesis by (simp add: entry_def)
  next
    assume "total_strength rs < 2 ^ 63"
    from read_loop_bounded [OF l, of 0, OF _ _ _ assms(3)] this show ?thesis
      by (simp add: entry_def)
  qed
qed

theorem ReadConnectionsCSV_positive_witness:
  "distinct [''A'', ''B'', ''C''] \<and>
   ReadConnectionsCSV [''A'', ''B'', ''C'']
     [Record [''0'', ''5'', ''0''], Record [''2'', ''0'', ''0''], Record [''0'', ''0'', ''0'']]
     = Inr [(''A'', [(''B'', 5)]), (''B'', [(''A'', 2)])] \<and>
   entry [(''A'', [(''B'', 5)]), (''B'', [(''A'', 2)])] ''A'' ''B'' = Some 5 \<and>
   0 < sint (5 :: go_int) \<and>
   total_strength [Record [''3'', ''4'']] < 2 ^ 63 \<and>
   ReadConnectionsCSV [''A'', ''A''] [Record [''3'', ''4'']] = Inr [(''A'', [(''A'', 7)])] \<and>
   entry [(''A'', [(''A'', 7)])] ''A'' ''A'' = Some 7 \<and>
   0 < sint (7 :: go_int)"
proof -
  have d: "distinct [''A'', ''B'', ''C'']" by simp
  have l: "ReadConnectionsCSV [''A'', ''B'', ''C'']
     [Record [''0'', ''5'', ''0''], Record [''2'', ''0'', ''0''], Record [''0'', ''0'', ''0'']]
     = Inr [(''A'', [(''B'', 5)]), (''B'', [(''A'', 2)])]"
    by code_simp
  have e: "entry [(''A'', [(''B'', 5)]), (''B'', [(''A'', 2)])] ''A'' ''B'' = Some 5"
    by (simp add: entry_def)
  have t: "total_strength [Record [''3'', ''4'']] < 2 ^ 63"
    by code_simp
  have l2: "ReadConnectionsCSV [''A'', ''A''] [Record [''3'', ''4'']] = Inr [(''A'', [(''A'', 7)])]"
    by code_simp
  have e2: "entry [(''A'', [(''A'', 7)])] ''A'' ''A'' = Some 7"
    by (simp add: entry_def)
  from ReadConnectionsCSV_positive [OF disjI1 [OF d] l e]
       ReadConnectionsCSV_positive [OF disjI2 [OF t] l2 e2] d l e t l2 e2
  show ?thesis by blast
qed

theorem ReadConnectionsCSV_overflow_counterexample:
  "ReadConnectionsCSV [''A'', ''A'']
     [Record [''9223372036854775807'', ''9223372036854775807'']] = Inr [(''A'', [(''A'', - 2)])] \<and>
   entry [(''A'', [(''A'', - 2)])] ''A'' ''A'' = Some (- 2) \<and>
   sint (- 2 :: go_int) < 0"
  by code_simp


end
